theory Spec2Isabelle
  imports Main "HOL-Library.Word" "HOL-Library.Multiset"
begin

section \<open>Data of the shell bot\<close>

text \<open>
  The program is Python 3 (\<^verbatim>\<open>#!/usr/bin/env python3\<close>, \<^verbatim>\<open>b''.join\<close>, \<^verbatim>\<open>buf.clear()\<close>).
  What \<^verbatim>\<open>os.read\<close> returns is a \<^verbatim>\<open>bytes\<close> object: a list of 8-bit words. A \<^verbatim>\<open>str\<close>
  is a sequence of Unicode code points: a list of naturals. String literals of the source
  are written \<open>str ''...''\<close>.
\<close>

type_synonym byte = "8 word"
type_synonym bytes = "byte list"
type_synonym codepoint = nat
type_synonym utext = "codepoint list"

definition str :: "string \<Rightarrow> utext" where
  "str s = map of_char s"

text \<open>\<^verbatim>\<open>MAX_STDOUT_PER_MSG = 1024 * 16\<close>\<close>

definition MAX_STDOUT_PER_MSG :: nat where
  "MAX_STDOUT_PER_MSG = 1024 * 16"

text \<open>
  Python compares objects of different types as unequal: \<^verbatim>\<open>b'' == ''\<close> is \<^verbatim>\<open>False\<close>.
\<close>

datatype pyobj = PyBytes bytes | PyStr utext

fun py_eq :: "pyobj \<Rightarrow> pyobj \<Rightarrow> bool" where
  "py_eq (PyBytes a) (PyBytes b) = (a = b)"
| "py_eq (PyStr a) (PyStr b) = (a = b)"
| "py_eq (PyBytes a) (PyStr b) = False"
| "py_eq (PyStr a) (PyBytes b) = False"

datatype py_error = KeyError utext | IndexError | OSError

section \<open>Regular expressions of the \<^verbatim>\<open>re\<close> module\<close>

text \<open>
  The fragment of \<^verbatim>\<open>re\<close> the four patterns of the source use: literals, character classes,
  a greedy star over a character class, an optional item, sequence, alternation and
  capturing groups. \<open>rmatch\<close> lists every way the pattern matches a prefix of the subject,
  in the order the backtracking matcher tries them (greedy first, left alternative first),
  as the captured groups and the rest of the subject; \<^verbatim>\<open>re.match\<close> takes the first.
\<close>

datatype regex =
    Eps
  | Lit codepoint
  | Cls "codepoint \<Rightarrow> bool"
  | Star "codepoint \<Rightarrow> bool"
  | Opt regex
  | Seq regex regex
  | Alt regex regex
  | Group regex

text \<open>
  Under \<^verbatim>\<open>re.I\<close> a literal of a \<^verbatim>\<open>str\<close> pattern matches a character whose lower case is
  the literal's lower case; the letter s also matches U+017F (long s). \<open>unicode_tolower\<close>
  is the simple lower-case mapping on the code points whose image is an ASCII character
  (A to Z, U+0130 and the Kelvin sign); the image of any other code point is not ASCII,
  and the literals of the source's patterns are all ASCII.
\<close>

definition unicode_tolower :: "codepoint \<Rightarrow> codepoint" where
  "unicode_tolower c =
     (if 65 \<le> c \<and> c \<le> 90 then c + 32
      else if c = 0x130 then 105
      else if c = 0x212A then 107
      else c)"

definition lit_eq :: "bool \<Rightarrow> codepoint \<Rightarrow> codepoint \<Rightarrow> bool" where
  "lit_eq ignorecase c d =
     (if ignorecase
      then unicode_tolower d = unicode_tolower c
           \<or> (unicode_tolower c = 115 \<and> d = 0x17F)
      else d = c)"

fun star_rests :: "(codepoint \<Rightarrow> bool) \<Rightarrow> utext \<Rightarrow> utext list" where
  "star_rests P [] = [[]]"
| "star_rests P (d # t) = (if P d then star_rests P t @ [d # t] else [d # t])"

fun rmatch :: "bool \<Rightarrow> regex \<Rightarrow> utext \<Rightarrow> (utext list \<times> utext) list" where
  "rmatch ic Eps s = [([], s)]"
| "rmatch ic (Lit c) s =
     (case s of [] \<Rightarrow> [] | d # t \<Rightarrow> if lit_eq ic c d then [([], t)] else [])"
| "rmatch ic (Cls P) s =
     (case s of [] \<Rightarrow> [] | d # t \<Rightarrow> if P d then [([], t)] else [])"
| "rmatch ic (Star P) s = map (\<lambda>r. ([], r)) (star_rests P s)"
| "rmatch ic (Opt a) s = rmatch ic a s @ [([], s)]"
| "rmatch ic (Seq a b) s =
     concat (map (\<lambda>(g1, r1). map (\<lambda>(g2, r2). (g1 @ g2, r2)) (rmatch ic b r1))
                 (rmatch ic a s))"
| "rmatch ic (Alt a b) s = rmatch ic a s @ rmatch ic b s"
| "rmatch ic (Group a) s =
     map (\<lambda>(g, r). (g @ [take (length s - length r) s], r)) (rmatch ic a s)"

definition re_match :: "bool \<Rightarrow> regex \<Rightarrow> utext \<Rightarrow> (utext list \<times> utext) option" where
  "re_match ic p s = (case rmatch ic p s of [] \<Rightarrow> None | m # _ \<Rightarrow> Some m)"

text \<open>
  \<^verbatim>\<open>re.sub(pattern, repl, s)\<close> for a replacement without group references: scan from
  the left, replace the leftmost match and go on behind it. Every pattern the source
  substitutes needs an escape character, so a match is never empty
  (lemmas \<open>cleared_line_consumes\<close>, \<open>escape_consumes\<close>); the branch for an empty match only
  makes the recursion well-founded.
\<close>

fun re_sub :: "regex \<Rightarrow> utext \<Rightarrow> utext \<Rightarrow> utext" where
  "re_sub p repl [] = []"
| "re_sub p repl (c # t) =
     (case re_match False p (c # t) of
        None \<Rightarrow> c # re_sub p repl t
      | Some (g, rest) \<Rightarrow>
          if length rest \<le> length t then repl @ re_sub p repl rest
          else c # re_sub p repl t)"

fun lits :: "utext \<Rightarrow> regex" where
  "lits [] = Eps"
| "lits (c # cs) = Seq (Lit c) (lits cs)"

text \<open>
  \<^verbatim>\<open>\d\<close> and \<^verbatim>\<open>\w\<close> of a \<^verbatim>\<open>str\<close> pattern follow the Unicode character database:
  \<^verbatim>\<open>\d\<close> is a decimal digit, \<^verbatim>\<open>\w\<close> an alphanumeric character or the underscore. On ASCII
  both are fixed; beyond ASCII the tables of the interpreter decide, and they are a
  parameter here.
\<close>

record ucd =
  isdecimal :: "codepoint \<Rightarrow> bool"
  isalnum :: "codepoint \<Rightarrow> bool"

definition re_digit :: "ucd \<Rightarrow> codepoint \<Rightarrow> bool" where
  "re_digit u c = (if c < 128 then 48 \<le> c \<and> c \<le> 57 else isdecimal u c)"

definition re_word :: "ucd \<Rightarrow> codepoint \<Rightarrow> bool" where
  "re_word u c =
     (if c < 128
      then (48 \<le> c \<and> c \<le> 57) \<or> (65 \<le> c \<and> c \<le> 90) \<or> (97 \<le> c \<and> c \<le> 122) \<or> c = 95
      else isalnum u c)"

text \<open>Tables with no entry beyond ASCII, for evaluating the filter on ASCII text.\<close>

definition ascii_ucd :: ucd where
  "ascii_ucd = \<lparr>isdecimal = (\<lambda>c. False), isalnum = (\<lambda>c. False)\<rparr>"

text \<open>
  \<^verbatim>\<open>SHELL_CMD_REGEX = r'!shell (.*)'\<close>,
  \<^verbatim>\<open>CTRLC_CMD_REGEX = r'!ctrl\+c|!ctrlc|!shell ctrlc|!shell ctrl\+c'\<close>,
  \<^verbatim>\<open>escape_parser = re.compile(r'\x1b\[?([\d;]*)(\w)')\<close>,
  \<^verbatim>\<open>cleared_line_parser = re.compile(r'[^\n]*\x1b\[K')\<close>.
  A dot matches every character but the newline.
\<close>

definition SHELL_CMD_REGEX :: regex where
  "SHELL_CMD_REGEX = Seq (lits (str ''!shell '')) (Group (Star (\<lambda>c. c \<noteq> 10)))"

definition CTRLC_CMD_REGEX :: regex where
  "CTRLC_CMD_REGEX =
     Alt (lits (str ''!ctrl+c''))
      (Alt (lits (str ''!ctrlc''))
        (Alt (lits (str ''!shell ctrlc'')) (lits (str ''!shell ctrl+c''))))"

definition escape_parser :: "ucd \<Rightarrow> regex" where
  "escape_parser u =
     Seq (Lit 27)
      (Seq (Opt (Lit 91))
        (Seq (Group (Star (\<lambda>c. re_digit u c \<or> c = 59))) (Group (Cls (re_word u)))))"

definition cleared_line_parser :: regex where
  "cleared_line_parser = Seq (Star (\<lambda>c. c \<noteq> 10)) (Seq (Lit 27) (Seq (Lit 91) (Lit 75)))"

section \<open>The escape filter\<close>

definition handle_escape_codes :: "ucd \<Rightarrow> utext \<Rightarrow> utext" where
  "handle_escape_codes u shell_out =
     (let shell_out_after_clears = re_sub cleared_line_parser [] shell_out;
          shell_out_noescapes = re_sub (escape_parser u) [] shell_out_after_clears
      in shell_out_noescapes)"

section \<open>The input router\<close>

text \<open>
  A message event is the dictionary the chat client hands over: \<^verbatim>\<open>event['sender']\<close> and
  \<^verbatim>\<open>event['content']\<close> with the optional keys \<^verbatim>\<open>msgtype\<close> and \<^verbatim>\<open>body\<close> (a string, so that
  \<^verbatim>\<open>str\<close> leaves it as it is). What \<open>on_message\<close> does to the logger and to the file object
  \<^verbatim>\<open>pin\<close> is the list of its effects, in order; reading a missing key raises.
\<close>

record event_content =
  msgtype :: "utext option"
  body :: "utext option"

record event =
  sender :: utext
  content :: event_content

datatype pin_effect = LogInfo utext | Write utext | Flush

definition on_message :: "event \<Rightarrow> utext list \<Rightarrow> py_error + pin_effect list" where
  "on_message ev allowed_users =
     (if sender ev \<in> set allowed_users \<and>
         (msgtype (content ev) \<noteq> None \<and> msgtype (content ev) = Some (str ''m.text''))
      then
        (case body (content ev) of
           None \<Rightarrow> Inl (KeyError (str ''body''))
         | Some message \<Rightarrow>
             if re_match True CTRLC_CMD_REGEX message \<noteq> None
             then Inr [LogInfo (str ''sending ctrl+c''), Write [3], Flush]
             else
               (case re_match True SHELL_CMD_REGEX message of
                  None \<Rightarrow> Inr []
                | Some (groups, rest) \<Rightarrow>
                    (case groups of
                       [] \<Rightarrow> Inl IndexError
                     | message' # _ \<Rightarrow>
                         Inr [LogInfo (str ''shell stdin: '' @ message'),
                              Write message', Write [10], Flush])))
      else Inr [])"

section \<open>The incremental decoder\<close>

text \<open>
  \<^verbatim>\<open>codecs.getincrementaldecoder('utf8')(errors='replace')\<close> is the buffered incremental
  decoder of the standard library over \<^verbatim>\<open>codecs.utf_8_decode\<close>. \<open>utf_8_decode final data\<close>
  gives the decoded text and the bytes not consumed. A byte that cannot start a sequence,
  and the valid part of a sequence broken by a byte that cannot continue it, become one
  U+FFFD each, and decoding goes on at the offending byte. A sequence cut off by the end of
  the data is left unconsumed unless \<open>final\<close> holds; then it becomes one U+FFFD. Data that
  is not final and ends in 0xED and one byte of 0xA0 to 0xBF, a surrogate cut off, is left
  unconsumed as well; in the middle of the data, and at the end of final data, the 0xED is
  an error of one byte.
\<close>

definition is_continuation_byte :: "byte \<Rightarrow> bool" where
  "is_continuation_byte b = (0x80 \<le> b \<and> b < 0xC0)"

definition unexpected_end :: "bool \<Rightarrow> bytes \<Rightarrow> utext \<times> bytes" where
  "unexpected_end final s = (if final then ([0xFFFD], []) else ([], s))"

fun emit :: "codepoint \<Rightarrow> utext \<times> bytes \<Rightarrow> utext \<times> bytes" where
  "emit c (t, r) = (c # t, r)"

fun utf_8_decode :: "bool \<Rightarrow> bytes \<Rightarrow> utext \<times> bytes" where
  "utf_8_decode final [] = ([], [])"
| "utf_8_decode final (ch # s) =
     (if ch < 0x80 then emit (unat ch) (utf_8_decode final s)
      else if ch < 0xC2 then emit 0xFFFD (utf_8_decode final s)
      else if ch < 0xE0 then
        (case s of
           [] \<Rightarrow> unexpected_end final (ch # s)
         | ch2 # s2 \<Rightarrow>
             if \<not> is_continuation_byte ch2 then emit 0xFFFD (utf_8_decode final s)
             else emit (unat ch mod 32 * 64 + unat ch2 mod 64) (utf_8_decode final s2))
      else if ch < 0xF0 then
        (case s of
           [] \<Rightarrow> unexpected_end final (ch # s)
         | ch2 # s2 \<Rightarrow>
             if \<not> is_continuation_byte ch2 \<or> (if ch2 < 0xA0 then ch = 0xE0 else ch = 0xED)
             then
               (if \<not> final \<and> ch = 0xED \<and> s2 = [] \<and> 0xA0 \<le> ch2 \<and> ch2 \<le> 0xBF
                then ([], ch # s)
                else emit 0xFFFD (utf_8_decode final s))
             else
               (case s2 of
                  [] \<Rightarrow> unexpected_end final (ch # s)
                | ch3 # s3 \<Rightarrow>
                    if \<not> is_continuation_byte ch3 then emit 0xFFFD (utf_8_decode final s2)
                    else emit (unat ch mod 16 * 4096 + unat ch2 mod 64 * 64 + unat ch3 mod 64)
                              (utf_8_decode final s3)))
      else if ch < 0xF5 then
        (case s of
           [] \<Rightarrow> unexpected_end final (ch # s)
         | ch2 # s2 \<Rightarrow>
             if \<not> is_continuation_byte ch2 \<or> (if ch2 < 0x90 then ch = 0xF0 else ch = 0xF4)
             then emit 0xFFFD (utf_8_decode final s)
             else
               (case s2 of
                  [] \<Rightarrow> unexpected_end final (ch # s)
                | ch3 # s3 \<Rightarrow>
                    if \<not> is_continuation_byte ch3 then emit 0xFFFD (utf_8_decode final s2)
                    else
                      (case s3 of
                         [] \<Rightarrow> unexpected_end final (ch # s)
                       | ch4 # s4 \<Rightarrow>
                           if \<not> is_continuation_byte ch4
                           then emit 0xFFFD (utf_8_decode final s3)
                           else emit (unat ch mod 8 * 262144 + unat ch2 mod 64 * 4096
                                        + unat ch3 mod 64 * 64 + unat ch4 mod 64)
                                     (utf_8_decode final s4))))
      else emit 0xFFFD (utf_8_decode final s))"

text \<open>
  A decoder object is its \<^verbatim>\<open>decode(input, final=False)\<close> method over its state. The state of
  the buffered decoder is the bytes it holds back:
  \<^verbatim>\<open>data = self.buffer + input; (result, consumed) = self._buffer_decode(data, self.errors, final);
  self.buffer = data[consumed:]; return result\<close>.
\<close>

type_synonym ('d, 't) decoder = "'d \<Rightarrow> bytes \<Rightarrow> bool \<Rightarrow> 't \<times> 'd"

definition incremental_decode :: "(bytes, utext) decoder" where
  "incremental_decode buffer input final = utf_8_decode final (buffer @ input)"

text \<open>
  A decoder that hands back the bytes it is given: run with it, \<open>stdout_to_messages\<close> shows
  the bytes of each block it emits.
\<close>

definition raw_decode :: "(unit, bytes) decoder" where
  "raw_decode d input final = (input, d)"

section \<open>The output buffer\<close>

text \<open>
  The loop of \<open>stdout_to_messages\<close>:
  \<^verbatim>\<open>while buf and len(buf[0]) + bytes_to_send <= MAX_STDOUT_PER_MSG:
      stdout_to_send.append(buf.pop(0)); bytes_to_send += len(stdout_to_send[-1])\<close>.
  It returns \<open>stdout_to_send\<close> and what is left of \<open>buf\<close>.
\<close>

fun grab_chunks :: "bytes list \<Rightarrow> bytes list \<Rightarrow> nat \<Rightarrow> bytes list \<times> bytes list" where
  "grab_chunks [] stdout_to_send bytes_to_send = (stdout_to_send, [])"
| "grab_chunks (c # buf) stdout_to_send bytes_to_send =
     (if length c + bytes_to_send \<le> MAX_STDOUT_PER_MSG
      then grab_chunks buf (stdout_to_send @ [c]) (bytes_to_send + length c)
      else (stdout_to_send, c # buf))"

text \<open>\<^verbatim>\<open>bytes.rfind\<close> of one byte: the highest index where it occurs, or -1.\<close>

fun rfind :: "bytes \<Rightarrow> byte \<Rightarrow> int" where
  "rfind [] b = -1"
| "rfind (x # xs) b =
     (let r = rfind xs b in if r \<noteq> -1 then r + 1 else if x = b then 0 else -1)"

text \<open>
  \<open>stdout_to_messages buf incremental_decoder flush\<close>, with the decoder as its method and its
  state: the result is the list returned, the buffer as the call leaves it and the state
  of the decoder. Every call of \<^verbatim>\<open>decode\<close> leaves \<open>final\<close> at its default, \<^verbatim>\<open>False\<close>.
\<close>

definition stdout_to_messages ::
  "bytes list \<Rightarrow> ('d, 't) decoder \<Rightarrow> 'd \<Rightarrow> bool \<Rightarrow> 't list \<times> bytes list \<times> 'd" where
  "stdout_to_messages buf decode d flush =
     (if flush then
        (let total_stdout = concat buf;
             (t, d') = decode d total_stdout False
         in ([t], [], d'))
      else if sum_list (map length buf) > MAX_STDOUT_PER_MSG then
        (let (stdout_to_send, buf1) = grab_chunks buf [] 0;
             total_stdout = concat stdout_to_send;
             last_newline = rfind total_stdout 10
         in if last_newline \<noteq> -1 then
              (let buf2 = buf1 @ [drop (nat (last_newline + 1)) total_stdout];
                   (t, d') = decode d (take (nat last_newline) total_stdout) False
               in ([t], buf2, d'))
            else
              (let (t, d') = decode d total_stdout False
               in ([t], buf1, d')))
      else ([], buf, d))"

section \<open>The output relay\<close>

text \<open>
  One pass of the loop of \<open>shell_stdout_handler\<close> sees: whether \<^verbatim>\<open>stop\<close> is set, what
  \<^verbatim>\<open>select\<close> and \<^verbatim>\<open>os.read(master, 1024)\<close> give (nothing to read within 0.1 s, the bytes
  read, or an error of the read) and the rooms of the client. The loop runs over the
  passes of a finite observation; when the observation ends the loop is still polling.
\<close>

datatype poll = Idle | Data bytes | ReadError

record cycle =
  is_set :: bool
  poll :: poll
  rooms :: "utext list"

datatype relay_effect = LogStdout utext | SendHtml utext utext utext

datatype relay_exit = StopSet | Returned | Raised py_error | Polling

definition send_block :: "ucd \<Rightarrow> utext list \<Rightarrow> utext \<Rightarrow> relay_effect list" where
  "send_block u rs shell_out =
     LogStdout (str ''shell stdout: '' @ shell_out) #
     (let text1 = handle_escape_codes u shell_out;
          text2 = filter (\<lambda>c. c \<noteq> 13) text1;
          html = str ''<pre><code>'' @ text2 @ str ''</code></pre>''
      in map (\<lambda>room. SendHtml room html text2) rs)"

fun relay_loop ::
  "ucd \<Rightarrow> cycle list \<Rightarrow> bytes list \<Rightarrow> bytes
     \<Rightarrow> relay_exit \<times> relay_effect list \<times> bytes list \<times> bytes" where
  "relay_loop u [] buf dec = (Polling, [], buf, dec)"
| "relay_loop u (c # cs) buf dec =
     (if is_set c then (StopSet, [], buf, dec)
      else
        (case (case poll c of
                 Idle \<Rightarrow> Inr (False, buf)
               | ReadError \<Rightarrow> Inl (Raised OSError)
               | Data shell_stdout \<Rightarrow>
                   if py_eq (PyBytes shell_stdout) (PyStr [])
                   then Inl Returned
                   else Inr (True, buf @ [shell_stdout])) of
           Inl ex \<Rightarrow> (ex, [], buf, dec)
         | Inr (shell_has_more, buf1) \<Rightarrow>
             (let (msgs, buf2, dec2) =
                    (if buf1 \<noteq> [] \<and> rooms c \<noteq> []
                     then stdout_to_messages buf1 incremental_decode dec (\<not> shell_has_more)
                     else ([], buf1, dec));
                  effs = concat (map (send_block u (rooms c)) msgs);
                  (ex, effs', buf3, dec3) = relay_loop u cs buf2 dec2
              in (ex, effs @ effs', buf3, dec3))))"

text \<open>The handler starts with an empty buffer and a fresh decoder.\<close>

definition shell_stdout_handler ::
  "ucd \<Rightarrow> cycle list \<Rightarrow> relay_exit \<times> relay_effect list \<times> bytes list \<times> bytes" where
  "shell_stdout_handler u cs = relay_loop u cs [] []"

section \<open>Example inputs\<close>

text \<open>
  A full read of 1024 bytes \<^verbatim>\<open>x\<close>, and a buffer of 17 reads and 16387 bytes: the three
  bytes \<^verbatim>\<open>a\<close>, newline, \<^verbatim>\<open>b\<close> and then 16 full reads.
\<close>

definition chunk_x :: bytes where
  "chunk_x = replicate 1024 120"

definition big_buf :: "bytes list" where
  "big_buf = [97, 10, 98] # replicate 16 chunk_x"

section \<open>Matching the command forms\<close>

lemma star_rests_hd: "\<exists>rs. star_rests P s = dropWhile P s # rs"
  by (induction s) auto

lemma take_dropWhile: "take (length s - length (dropWhile P s)) s = takeWhile P s"
  by (induction s) (auto simp: Suc_diff_le length_dropWhile_le)

lemma rmatch_lits:
  "list_all2 (\<lambda>c d. lit_eq ic c d) w pre \<Longrightarrow> rmatch ic (lits w) (pre @ rest) = [([], rest)]"
  by (induction w pre rule: list_all2_induct) auto

lemma lower_lits:
  assumes "map unicode_tolower pre = w" and "\<forall>c\<in>set w. unicode_tolower c = c"
  shows "list_all2 (\<lambda>c d. lit_eq True c d) w pre"
proof -
  have len: "length w = length pre"
    using assms(1) by auto
  have "lit_eq True (w ! i) (pre ! i)" if "i < length w" for i
  proof -
    have "unicode_tolower (pre ! i) = w ! i"
      using assms(1) that len by (metis nth_map)
    moreover have "unicode_tolower (w ! i) = w ! i"
      using assms(2) that by simp
    ultimately show ?thesis
      by (simp add: lit_eq_def)
  qed
  with len show ?thesis
    by (simp add: list_all2_conv_all_nth)
qed

lemma lits_lower_match:
  assumes "map unicode_tolower pre = w" and "\<forall>c\<in>set w. unicode_tolower c = c"
  shows "rmatch True (lits w) (pre @ rest) = [([], rest)]"
  using rmatch_lits[OF lower_lits[OF assms]] .

lemma shell_lower: "\<forall>c\<in>set (str ''!shell ''). unicode_tolower c = c"
  by (simp add: str_def unicode_tolower_def)

lemma shell_regex_match:
  assumes "map unicode_tolower pre = str ''!shell ''"
  shows "re_match True SHELL_CMD_REGEX (pre @ cmd) =
    Some ([takeWhile (\<lambda>c. c \<noteq> 10) cmd], dropWhile (\<lambda>c. c \<noteq> 10) cmd)"
proof -
  have m: "rmatch True (lits (str ''!shell '')) (pre @ cmd) = [([], cmd)]"
    using lits_lower_match[OF assms shell_lower] .
  obtain rs where rs: "star_rests (\<lambda>c. c \<noteq> 10) cmd = dropWhile (\<lambda>c. c \<noteq> 10) cmd # rs"
    using star_rests_hd by blast
  show ?thesis
    by (simp add: re_match_def SHELL_CMD_REGEX_def m rs take_dropWhile)
qed

lemma ctrlc_lower:
  "\<forall>w\<in>{str ''!ctrl+c'', str ''!ctrlc'', str ''!shell ctrlc'', str ''!shell ctrl+c''}.
     \<forall>c\<in>set w. unicode_tolower c = c"
  by (simp add: str_def unicode_tolower_def)

lemma ctrlc_prefix_matches:
  assumes "map unicode_tolower pre \<in>
    {str ''!ctrl+c'', str ''!ctrlc'', str ''!shell ctrlc'', str ''!shell ctrl+c''}"
  shows "re_match True CTRLC_CMD_REGEX (pre @ rest) \<noteq> None"
proof -
  have "rmatch True (lits (map unicode_tolower pre)) (pre @ rest) = [([], rest)]"
    using lits_lower_match[OF refl] ctrlc_lower assms by blast
  with assms have "rmatch True CTRLC_CMD_REGEX (pre @ rest) \<noteq> []"
    unfolding CTRLC_CMD_REGEX_def by auto
  then show ?thesis
    by (simp add: re_match_def split: list.splits)
qed

lemma on_message_ctrlc:
  assumes "sender ev \<in> set allowed_users"
    and "msgtype (content ev) = Some (str ''m.text'')"
    and "body (content ev) = Some message"
    and "re_match True CTRLC_CMD_REGEX message \<noteq> None"
  shows "on_message ev allowed_users = Inr [LogInfo (str ''sending ctrl+c''), Write [3], Flush]"
  using assms by (simp add: on_message_def)

lemma on_message_shell:
  assumes "sender ev \<in> set allowed_users"
    and "msgtype (content ev) = Some (str ''m.text'')"
    and "body (content ev) = Some (pre @ cmd)"
    and "map unicode_tolower pre = str ''!shell ''"
    and "re_match True CTRLC_CMD_REGEX (pre @ cmd) = None"
  shows "on_message ev allowed_users =
    Inr [LogInfo (str ''shell stdin: '' @ takeWhile (\<lambda>c. c \<noteq> 10) cmd),
         Write (takeWhile (\<lambda>c. c \<noteq> 10) cmd), Write [10], Flush]"
  using assms by (simp add: on_message_def shell_regex_match)

lemma echo_hi_not_ctrlc:
  assumes "map unicode_tolower pre = str ''!shell ''"
  shows "re_match True CTRLC_CMD_REGEX (pre @ str ''echo hi'') = None"
proof -
  obtain p1 p2 p3 p4 p5 p6 p7 where pre: "pre = [p1, p2, p3, p4, p5, p6, p7]"
    and low: "unicode_tolower p1 = 33" "unicode_tolower p2 = 115" "unicode_tolower p3 = 104"
      "unicode_tolower p4 = 101" "unicode_tolower p5 = 108" "unicode_tolower p6 = 108"
      "unicode_tolower p7 = 32"
    using assms by (auto simp: str_def map_eq_Cons_conv)
  have num: "unicode_tolower (numeral k) =
      (if 65 \<le> (numeral k :: nat) \<and> (numeral k :: nat) \<le> 90 then numeral k + 32
       else if (numeral k :: nat) = 0x130 then 105
       else if (numeral k :: nat) = 0x212A then 107 else numeral k)" for k
    by (simp add: unicode_tolower_def)
  show ?thesis
    by (simp add: re_match_def CTRLC_CMD_REGEX_def str_def pre lit_eq_def low num)
qed

lemmas on_message_eval = on_message_def str_def CTRLC_CMD_REGEX_def SHELL_CMD_REGEX_def
  re_match_def lit_eq_def unicode_tolower_def

section \<open>Properties of the input router\<close>

text \<open>
  C8. An event whose sender is not in the allow-list, or whose content is not of type
  \<^verbatim>\<open>m.text\<close>, has no effect at all: nothing is logged, nothing is written to the input
  channel, nothing is flushed and nothing is raised.
\<close>

theorem on_message_ignores_unauthorised:
  "sender ev \<notin> set allowed_users \<or> msgtype (content ev) \<noteq> Some (str ''m.text'')
   \<Longrightarrow> on_message ev allowed_users = Inr []"
  by (auto simp: on_message_def)

theorem on_message_ignores_unauthorised_witness:
  "sender \<lparr>sender = str ''@eve:hs'',
             content = \<lparr>msgtype = Some (str ''m.text''), body = Some (str ''!shell ls'')\<rparr>\<rparr>
      \<notin> set [str ''@bob:hs'']
   \<and> on_message \<lparr>sender = str ''@eve:hs'',
             content = \<lparr>msgtype = Some (str ''m.text''), body = Some (str ''!shell ls'')\<rparr>\<rparr>
        [str ''@bob:hs''] = Inr []"
proof -
  have h: "sender \<lparr>sender = str ''@eve:hs'',
             content = \<lparr>msgtype = Some (str ''m.text''), body = Some (str ''!shell ls'')\<rparr>\<rparr>
      \<notin> set [str ''@bob:hs'']"
    by (simp add: str_def)
  show ?thesis
    using h on_message_ignores_unauthorised[OF disjI1, OF h] by simp
qed

text \<open>
  C5, as the code has it. The shell form needs the leading exclamation mark: a message
  \<^verbatim>\<open>!shell echo hi\<close>, with \<^verbatim>\<open>!shell\<close> in any case, from an allowed sender writes
  \<^verbatim>\<open>echo hi\<close> and then a newline to the input channel and flushes it.
\<close>

theorem shell_echo_hi_written:
  assumes "sender ev \<in> set allowed_users"
    and "msgtype (content ev) = Some (str ''m.text'')"
    and "body (content ev) = Some (pre @ str ''echo hi'')"
    and "map unicode_tolower pre = str ''!shell ''"
  shows "on_message ev allowed_users =
    Inr [LogInfo (str ''shell stdin: echo hi''), Write (str ''echo hi''), Write [10], Flush]"
proof -
  have tw: "takeWhile (\<lambda>c. c \<noteq> 10) (str ''echo hi'') = str ''echo hi''"
    by (simp add: str_def)
  have lg: "str ''shell stdin: '' @ str ''echo hi'' = str ''shell stdin: echo hi''"
    by (simp add: str_def)
  show ?thesis
    using on_message_shell[OF assms echo_hi_not_ctrlc[OF assms(4)]]
    unfolding tw lg .
qed

theorem shell_echo_hi_written_witness:
  "str ''@bob:hs'' \<in> set [str ''@bob:hs'']
   \<and> map unicode_tolower (str ''!Shell '') = str ''!shell ''
   \<and> on_message \<lparr>sender = str ''@bob:hs'',
        content = \<lparr>msgtype = Some (str ''m.text''),
                    body = Some (str ''!Shell '' @ str ''echo hi'')\<rparr>\<rparr> [str ''@bob:hs'']
     = Inr [LogInfo (str ''shell stdin: echo hi''), Write (str ''echo hi''), Write [10], Flush]"
proof -
  have low: "map unicode_tolower (str ''!Shell '') = str ''!shell ''"
    by (simp add: str_def unicode_tolower_def)
  show ?thesis
    using low
      shell_echo_hi_written[of "\<lparr>sender = str ''@bob:hs'',
        content = \<lparr>msgtype = Some (str ''m.text''),
                    body = Some (str ''!Shell '' @ str ''echo hi'')\<rparr>\<rparr>"
        "[str ''@bob:hs'']" "str ''!Shell ''"]
    by simp
qed

text \<open>
  C5, as the claim states it: the body \<^verbatim>\<open>shell echo hi\<close>, without the exclamation mark,
  matches neither pattern, and nothing is written.
\<close>

theorem shell_echo_hi_without_bang:
  "on_message \<lparr>sender = str ''@bob:hs'',
      content = \<lparr>msgtype = Some (str ''m.text''), body = Some (str ''shell echo hi'')\<rparr>\<rparr>
      [str ''@bob:hs''] = Inr []"
  by (simp add: on_message_eval)

lemma shell_ctrlc_overlap:
  assumes "map unicode_tolower message \<in> {str ''!shell ctrlc'', str ''!shell ctrl+c''}"
  shows "re_match True SHELL_CMD_REGEX message \<noteq> None"
proof -
  have "take 7 (map unicode_tolower message) = str ''!shell ''"
    using assms by (auto simp: str_def)
  then have "map unicode_tolower (take 7 message) = str ''!shell ''"
    by (simp add: take_map)
  from shell_regex_match[OF this, of "drop 7 message"] show ?thesis
    by simp
qed

text \<open>
  C6. A plain-text message from an allowed sender that is one of the four ctrl-c spellings
  of \<open>CTRLC_CMD_REGEX\<close>, in any case, writes the single character 0x03 and flushes; no
  newline follows. The ctrl-c pattern is tried first: the spellings that begin with
  \<^verbatim>\<open>!shell\<close> match the shell form too, and still only the interrupt is written.
\<close>

theorem ctrlc_writes_interrupt:
  assumes "sender ev \<in> set allowed_users"
    and "msgtype (content ev) = Some (str ''m.text'')"
    and "body (content ev) = Some message"
    and "map unicode_tolower message \<in>
      {str ''!ctrl+c'', str ''!ctrlc'', str ''!shell ctrlc'', str ''!shell ctrl+c''}"
  shows "on_message ev allowed_users =
           Inr [LogInfo (str ''sending ctrl+c''), Write [3], Flush]
    \<and> (map unicode_tolower message \<in> {str ''!shell ctrlc'', str ''!shell ctrl+c''}
         \<longrightarrow> re_match True SHELL_CMD_REGEX message \<noteq> None)"
proof -
  have "re_match True CTRLC_CMD_REGEX message \<noteq> None"
    using ctrlc_prefix_matches[OF assms(4), of "[]"] by simp
  then show ?thesis
    using on_message_ctrlc[OF assms(1-3)] shell_ctrlc_overlap by blast
qed

theorem ctrlc_writes_interrupt_witness:
  "str ''@bob:hs'' \<in> set [str ''@bob:hs'']
   \<and> map unicode_tolower (str ''!SHELL CtrlC'') = str ''!shell ctrlc''
   \<and> on_message \<lparr>sender = str ''@bob:hs'',
        content = \<lparr>msgtype = Some (str ''m.text''), body = Some (str ''!SHELL CtrlC'')\<rparr>\<rparr>
        [str ''@bob:hs'']
     = Inr [LogInfo (str ''sending ctrl+c''), Write [3], Flush]
   \<and> re_match True SHELL_CMD_REGEX (str ''!SHELL CtrlC'') \<noteq> None"
proof -
  have low: "map unicode_tolower (str ''!SHELL CtrlC'') = str ''!shell ctrlc''"
    by (simp add: str_def unicode_tolower_def)
  show ?thesis
    using low
      ctrlc_writes_interrupt[of "\<lparr>sender = str ''@bob:hs'',
        content = \<lparr>msgtype = Some (str ''m.text''), body = Some (str ''!SHELL CtrlC'')\<rparr>\<rparr>"
        "[str ''@bob:hs'']" "str ''!SHELL CtrlC''"]
    by simp
qed

text \<open>
  C10. \<^verbatim>\<open>re.match\<close> anchors the pattern at the start of the message only: a message that
  begins with a ctrl-c spelling and goes on with any text triggers the interrupt as well.
\<close>

theorem ctrlc_prefix_interrupt:
  assumes "sender ev \<in> set allowed_users"
    and "msgtype (content ev) = Some (str ''m.text'')"
    and "body (content ev) = Some (pre @ rest)"
    and "map unicode_tolower pre \<in>
      {str ''!ctrl+c'', str ''!ctrlc'', str ''!shell ctrlc'', str ''!shell ctrl+c''}"
  shows "on_message ev allowed_users =
           Inr [LogInfo (str ''sending ctrl+c''), Write [3], Flush]"
  using on_message_ctrlc[OF assms(1-3) ctrlc_prefix_matches[OF assms(4)]] .

theorem ctrlc_prefix_interrupt_witness:
  "str ''@bob:hs'' \<in> set [str ''@bob:hs'']
   \<and> map unicode_tolower (str ''!ctrlc'') = str ''!ctrlc''
   \<and> on_message \<lparr>sender = str ''@bob:hs'',
        content = \<lparr>msgtype = Some (str ''m.text''),
                    body = Some (str ''!ctrlc'' @ str '' please'')\<rparr>\<rparr>
        [str ''@bob:hs'']
     = Inr [LogInfo (str ''sending ctrl+c''), Write [3], Flush]"
proof -
  have low: "map unicode_tolower (str ''!ctrlc'') = str ''!ctrlc''"
    by (simp add: str_def unicode_tolower_def)
  show ?thesis
    using low
      ctrlc_prefix_interrupt[of "\<lparr>sender = str ''@bob:hs'',
        content = \<lparr>msgtype = Some (str ''m.text''),
                    body = Some (str ''!ctrlc'' @ str '' please'')\<rparr>\<rparr>"
        "[str ''@bob:hs'']" "str ''!ctrlc''" "str '' please''"]
    by simp
qed

section \<open>Properties of the output buffer\<close>

text \<open>
  C9. One call of \<open>stdout_to_messages\<close> returns exactly one block when \<open>flush\<close> holds or
  the buffered bytes exceed \<open>MAX_STDOUT_PER_MSG\<close>, and no block otherwise, whatever the
  buffer and the decoder are.
\<close>

theorem stdout_to_messages_one_block:
  "length (fst (stdout_to_messages buf decode d flush)) =
     (if flush \<or> sum_list (map length buf) > MAX_STDOUT_PER_MSG then 1 else 0)"
  by (simp add: stdout_to_messages_def Let_def split: prod.splits)

theorem stdout_to_messages_one_block_witness:
  "length (fst (stdout_to_messages [[104, 105], [10]] incremental_decode [] True)) = 1
   \<and> length (fst (stdout_to_messages [[104, 105], [10]] incremental_decode [] False)) = 0"
  using stdout_to_messages_one_block[of "[[104, 105], [10]]" incremental_decode "[]" True]
    stdout_to_messages_one_block[of "[[104, 105], [10]]" incremental_decode "[]" False]
  by (simp add: MAX_STDOUT_PER_MSG_def)

section \<open>Properties of the escape filter\<close>

lemma star_rests_sub: "r \<in> set (star_rests P s) \<Longrightarrow> set r \<subseteq> set s \<and> length r \<le> length s"
  by (induction s) (auto split: if_splits)

lemma lit_no_match: "c \<notin> set s \<Longrightarrow> rmatch False (Lit c) s = []"
  by (cases s) (auto simp: lit_eq_def)

lemma cleared_no_match: "27 \<notin> set s \<Longrightarrow> rmatch False cleared_line_parser s = []"
proof -
  assume esc: "27 \<notin> set s"
  have "rmatch False (Lit 27) r = []" if "r \<in> set (star_rests (\<lambda>c. c \<noteq> 10) s)" for r
    using star_rests_sub[OF that] esc by (intro lit_no_match) auto
  then show ?thesis
    by (simp add: cleared_line_parser_def)
qed

lemma seq_lit_no_match: "c \<notin> set s \<Longrightarrow> rmatch False (Seq (Lit c) q) s = []"
  by (cases s) (auto simp: lit_eq_def)

lemma escape_no_match: "27 \<notin> set s \<Longrightarrow> rmatch False (escape_parser u) s = []"
  unfolding escape_parser_def by (rule seq_lit_no_match)

lemma re_sub_no_match:
  assumes "\<And>t. 27 \<notin> set t \<Longrightarrow> rmatch False p t = []"
  shows "27 \<notin> set s \<Longrightarrow> re_sub p repl s = s"
  by (induction s) (simp_all add: re_match_def assms)

lemma handle_escape_codes_no_esc: "27 \<notin> set s \<Longrightarrow> handle_escape_codes u s = s"
  by (simp add: handle_escape_codes_def re_sub_no_match cleared_no_match escape_no_match)

lemma rmatch_le: "(g, r) \<in> set (rmatch ic p s) \<Longrightarrow> length r \<le> length s"
proof (induction p arbitrary: s g r)
  case (Star P)
  then show ?case using star_rests_sub by auto
next
  case (Seq a b)
  then obtain g1 r1 g2 where "(g1, r1) \<in> set (rmatch ic a s)" "(g2, r) \<in> set (rmatch ic b r1)"
    by auto
  then show ?case using Seq.IH by fastforce
qed (auto split: list.splits if_splits)

lemma seq_lit_consumes:
  assumes "(g, r) \<in> set (rmatch ic (Seq (Lit c) q) s)"
  shows "length r < length s"
proof -
  from assms obtain d t g2 where "s = d # t" "(g2, r) \<in> set (rmatch ic q t)"
    by (auto split: list.splits if_splits)
  then show ?thesis using rmatch_le by fastforce
qed

lemma escape_consumes:
  "(g, r) \<in> set (rmatch False (escape_parser u) s) \<Longrightarrow> length r < length s"
  unfolding escape_parser_def by (rule seq_lit_consumes)

lemma cleared_line_consumes:
  assumes "(g, r) \<in> set (rmatch False cleared_line_parser s)"
  shows "length r < length s"
proof -
  from assms obtain r1 g2 where "r1 \<in> set (star_rests (\<lambda>c. c \<noteq> 10) s)"
    and "(g2, r) \<in> set (rmatch False (Seq (Lit 27) (Seq (Lit 91) (Lit 75))) r1)"
    unfolding cleared_line_parser_def by auto
  then show ?thesis
    using star_rests_sub seq_lit_consumes by fastforce
qed

lemmas escape_eval = handle_escape_codes_def cleared_line_parser_def escape_parser_def
  re_match_def lit_eq_def re_word_def re_digit_def ascii_ucd_def

text \<open>
  C4, as the code has it. Text without an escape character passes the filter unchanged, so
  the filter is idempotent on every input whose filtered text holds no escape character.
\<close>

theorem handle_escape_codes_idempotent_no_esc:
  "27 \<notin> set (handle_escape_codes u x)
   \<Longrightarrow> handle_escape_codes u (handle_escape_codes u x) = handle_escape_codes u x"
  by (rule handle_escape_codes_no_esc)

theorem handle_escape_codes_idempotent_no_esc_witness:
  "27 \<notin> set (handle_escape_codes ascii_ucd (str ''hello'' @ [27, 91, 75] @ str ''world''))
   \<and> handle_escape_codes ascii_ucd
        (handle_escape_codes ascii_ucd (str ''hello'' @ [27, 91, 75] @ str ''world''))
     = str ''world''"
proof -
  have v: "handle_escape_codes ascii_ucd (str ''hello'' @ [27, 91, 75] @ str ''world'')
      = str ''world''"
    by (simp add: escape_eval str_def)
  have h: "27 \<notin> set (handle_escape_codes ascii_ucd (str ''hello'' @ [27, 91, 75] @ str ''world''))"
    unfolding v by (simp add: str_def)
  show ?thesis
    using h handle_escape_codes_idempotent_no_esc[OF h] v by simp
qed

text \<open>
  C4, as the claim states it. The second pass removes the later of two adjacent escape
  sequences and so leaves an escape character in front of the letter that followed: of
  \<^verbatim>\<open>ESC ESC A B\<close> the filter keeps \<^verbatim>\<open>ESC B\<close>, and of that it keeps nothing.
\<close>

theorem handle_escape_codes_not_idempotent:
  "handle_escape_codes ascii_ucd (handle_escape_codes ascii_ucd [27, 27, 65, 66])
   \<noteq> handle_escape_codes ascii_ucd [27, 27, 65, 66]"
proof -
  have "handle_escape_codes ascii_ucd [27, 27, 65, 66] = [27, 66]"
    by (simp add: escape_eval)
  moreover have "handle_escape_codes ascii_ucd [27, 66] = []"
    by (simp add: escape_eval)
  ultimately show ?thesis by simp
qed

section \<open>The loop and the branches of the output buffer\<close>

lemma grab_chunks_append:
  "grab_chunks buf acc n = (sent, rest) \<Longrightarrow> sent @ rest = acc @ buf"
  by (induction buf arbitrary: acc n) (auto split: if_splits)

lemma grab_chunks_bound:
  "grab_chunks buf acc (sum_list (map length acc)) = (sent, rest)
   \<Longrightarrow> sum_list (map length acc) \<le> MAX_STDOUT_PER_MSG
   \<Longrightarrow> sum_list (map length sent) \<le> MAX_STDOUT_PER_MSG"
proof (induction buf arbitrary: acc)
  case Nil
  then show ?case by simp
next
  case (Cons c buf)
  show ?case
  proof (cases "length c + sum_list (map length acc) \<le> MAX_STDOUT_PER_MSG")
    case True
    have "sum_list (map length (acc @ [c])) = sum_list (map length acc) + length c"
      by simp
    with Cons.prems True
    have "grab_chunks buf (acc @ [c]) (sum_list (map length (acc @ [c]))) = (sent, rest)"
      by simp
    moreover have "sum_list (map length (acc @ [c])) \<le> MAX_STDOUT_PER_MSG"
      using True by simp
    ultimately show ?thesis by (rule Cons.IH)
  next
    case False
    with Cons.prems show ?thesis by simp
  qed
qed

lemma grab_chunks_exact:
  "sum_list (map length taken) + n \<le> MAX_STDOUT_PER_MSG
   \<Longrightarrow> rest = [] \<or> MAX_STDOUT_PER_MSG < length (hd rest) + n + sum_list (map length taken)
   \<Longrightarrow> grab_chunks (taken @ rest) acc n = (acc @ taken, rest)"
proof (induction taken arbitrary: acc n)
  case Nil
  then show ?case by (cases rest) auto
next
  case (Cons c taken)
  then show ?case by (simp add: add.assoc add.left_commute add.commute)
qed

lemma rfind_ge: "- 1 \<le> rfind xs b"
  by (induction xs) (auto simp: Let_def)

lemma rfind_none: "b \<notin> set xs \<Longrightarrow> rfind xs b = - 1"
  by (induction xs) (auto simp: Let_def)

lemma rfind_split: "b \<notin> set post \<Longrightarrow> rfind (pre @ b # post) b = int (length pre)"
  by (induction pre) (auto simp: Let_def rfind_none)

lemma split_last_occurrence: "b \<in> set xs \<Longrightarrow> \<exists>pre post. xs = pre @ b # post \<and> b \<notin> set post"
  using split_list_last by fastforce

lemma stdout_to_messages_flush:
  "stdout_to_messages buf decode d True =
     ([fst (decode d (concat buf) False)], [], snd (decode d (concat buf) False))"
  by (simp add: stdout_to_messages_def Let_def split: prod.splits)

lemma stdout_to_messages_small:
  "sum_list (map length buf) \<le> MAX_STDOUT_PER_MSG
   \<Longrightarrow> stdout_to_messages buf decode d False = ([], buf, d)"
  by (simp add: stdout_to_messages_def)

lemma stdout_to_messages_newline:
  assumes "MAX_STDOUT_PER_MSG < sum_list (map length buf)"
    and "grab_chunks buf [] 0 = (sent, rest)"
    and "concat sent = pre @ 10 # post" and "10 \<notin> set post"
  shows "stdout_to_messages buf decode d False =
     ([fst (decode d pre False)], rest @ [post], snd (decode d pre False))"
proof -
  have r: "rfind (pre @ 10 # post) 10 = int (length pre)"
    using assms(4) by (simp add: rfind_split)
  have n: "nat (int (length pre) + 1) = Suc (length pre)"
    by simp
  show ?thesis
    using assms(1,2)
    by (simp add: stdout_to_messages_def Let_def r n assms(3) split: prod.splits)
qed

lemma stdout_to_messages_one_line:
  assumes "MAX_STDOUT_PER_MSG < sum_list (map length buf)"
    and "grab_chunks buf [] 0 = (sent, rest)"
    and "10 \<notin> set (concat sent)"
  shows "stdout_to_messages buf decode d False =
     ([fst (decode d (concat sent) False)], rest, snd (decode d (concat sent) False))"
  using assms(1,2) rfind_none[OF assms(3)]
  by (simp add: stdout_to_messages_def Let_def split: prod.splits)

lemma stdout_to_messages_raw:
  "stdout_to_messages buf decode d flush =
     (case stdout_to_messages buf raw_decode () flush of
        (bs, buf', _) \<Rightarrow>
          (case bs of
             [] \<Rightarrow> ([], buf', d)
           | b # _ \<Rightarrow> ([fst (decode d b False)], buf', snd (decode d b False))))"
  by (simp add: stdout_to_messages_def raw_decode_def Let_def split: prod.splits)

section \<open>Splitting at the size limit\<close>

lemma big_buf_size: "MAX_STDOUT_PER_MSG < sum_list (map length big_buf)"
  by (simp add: big_buf_def chunk_x_def MAX_STDOUT_PER_MSG_def sum_list_replicate)

lemma big_buf_grab:
  "grab_chunks big_buf [] 0 = ([97, 10, 98] # replicate 15 chunk_x, [chunk_x])"
proof -
  have "replicate (Suc 15) chunk_x = replicate 15 chunk_x @ [chunk_x]"
    by (simp only: replicate_Suc replicate_append_same)
  then have b: "big_buf = ([97, 10, 98] # replicate 15 chunk_x) @ [chunk_x]"
    by (simp add: big_buf_def)
  show ?thesis
    unfolding b
    by (rule grab_chunks_exact[of _ 0 _ "[]", simplified])
       (simp_all add: chunk_x_def MAX_STDOUT_PER_MSG_def sum_list_replicate)
qed

lemma big_buf_span:
  "concat ([97, 10, 98] # replicate 15 chunk_x) = [97] @ 10 # (98 # concat (replicate 15 chunk_x))"
  by simp

lemma big_buf_post: "10 \<notin> set (98 # concat (replicate 15 chunk_x))"
  by (simp add: chunk_x_def)

lemma chunk_x_hd: "chunk_x = 120 # replicate 1023 120"
proof -
  have "chunk_x = replicate (Suc 1023) 120"
    by (simp add: chunk_x_def)
  then show ?thesis by (simp only: replicate_Suc)
qed

lemma big_buf_split:
  "stdout_to_messages big_buf decode d False =
     ([fst (decode d [97] False)], [chunk_x, 98 # concat (replicate 15 chunk_x)],
      snd (decode d [97] False))"
  using stdout_to_messages_newline[OF big_buf_size big_buf_grab big_buf_span big_buf_post,
      of decode d]
  by simp

text \<open>
  C2, as the claim states it. On the example buffer the consumed span is the first 16
  reads and its last newline is its second byte. The block is \<^verbatim>\<open>a\<close> without the newline,
  and the buffer keeps two chunks: the read that was not consumed and the bytes of the
  span behind the newline.
\<close>

theorem size_split_drops_newline_keeps_rest:
  "stdout_to_messages big_buf raw_decode () False =
     ([[97]], [chunk_x, 98 # concat (replicate 15 chunk_x)], ())"
  by (simp add: big_buf_split raw_decode_def)

text \<open>
  C2, as the code has it. When the buffer holds more than \<open>MAX_STDOUT_PER_MSG\<close> bytes and
  the span \<open>sent\<close> the loop consumes holds a newline, the block is the decoded span up to
  its last newline, without that newline. The chunks the loop did not consume stay in the
  buffer, and there is always one; the bytes of the span behind the newline are kept as
  one more chunk of the buffer.
\<close>

theorem size_split_at_last_newline:
  assumes "MAX_STDOUT_PER_MSG < sum_list (map length buf)"
    and "grab_chunks buf [] 0 = (sent, rest)"
    and "10 \<in> set (concat sent)"
  shows "\<exists>pre post buf'.
      buf = sent @ rest \<and> rest \<noteq> [] \<and>
      concat sent = pre @ 10 # post \<and> 10 \<notin> set post \<and>
      stdout_to_messages buf decode d False =
        ([fst (decode d pre False)], buf', snd (decode d pre False)) \<and>
      mset buf' = mset rest + {#post#}"
proof -
  from split_last_occurrence[OF assms(3)] obtain pre post
    where sp: "concat sent = pre @ 10 # post" "10 \<notin> set post"
    by blast
  have app: "buf = sent @ rest"
    using grab_chunks_append[OF assms(2)] by simp
  have "sum_list (map length sent) \<le> MAX_STDOUT_PER_MSG"
    using grab_chunks_bound[of buf "[]" sent rest] assms(2) by simp
  with assms(1) app have ne: "rest \<noteq> []"
    by auto
  have "stdout_to_messages buf decode d False =
      ([fst (decode d pre False)], rest @ [post], snd (decode d pre False))"
    using stdout_to_messages_newline[OF assms(1,2) sp] .
  moreover have "mset (rest @ [post]) = mset rest + {#post#}"
    by simp
  ultimately show ?thesis
    using app ne sp by blast
qed

theorem size_split_at_last_newline_witness:
  "MAX_STDOUT_PER_MSG < sum_list (map length big_buf)
   \<and> grab_chunks big_buf [] 0 = ([97, 10, 98] # replicate 15 chunk_x, [chunk_x])
   \<and> 10 \<in> set (concat ([97, 10, 98] # replicate 15 chunk_x))
   \<and> (\<exists>pre post buf'.
        big_buf = ([97, 10, 98] # replicate 15 chunk_x) @ [chunk_x] \<and> [chunk_x] \<noteq> [] \<and>
        concat ([97, 10, 98] # replicate 15 chunk_x) = pre @ 10 # post \<and> 10 \<notin> set post \<and>
        stdout_to_messages big_buf incremental_decode [] False =
          ([fst (incremental_decode [] pre False)], buf', snd (incremental_decode [] pre False)) \<and>
        mset buf' = mset [chunk_x] + {#post#})"
proof -
  have nl: "10 \<in> set (concat ([97, 10, 98] # replicate 15 chunk_x))"
    by simp
  show ?thesis
    using big_buf_size big_buf_grab nl
      size_split_at_last_newline[OF big_buf_size big_buf_grab nl, of incremental_decode "[]"]
    by simp
qed

text \<open>
  C3. At the size limit the bytes of the span behind its last newline are put back with
  \<^verbatim>\<open>buf.append\<close>, behind the chunks the loop did not consume, although chunks leave the
  buffer at the front (\<open>stdout_to_messages_newline\<close> has the order for every buffer and
  every decoder). On the example buffer the bytes of the block, the newline that the split
  drops and the bytes of the chunks kept are \<^verbatim>\<open>a\<close>, newline, the 1024 bytes of the last
  read, \<^verbatim>\<open>b\<close> and the 15360 bytes read before it; the buffer held \<^verbatim>\<open>a\<close>, newline,
  \<^verbatim>\<open>b\<close>, the 15360 bytes and then the last read. The byte \<^verbatim>\<open>b\<close> and what follows it
  come out behind output that the shell printed later.
\<close>

theorem size_split_puts_remainder_behind:
  "(case stdout_to_messages big_buf raw_decode () False of
      (blocks, buf', d') \<Rightarrow> concat blocks @ 10 # concat buf')
     = 97 # 10 # chunk_x @ 98 # concat (replicate 15 chunk_x)
   \<and> concat big_buf = 97 # 10 # 98 # concat (replicate 15 chunk_x) @ chunk_x
   \<and> 97 # 10 # chunk_x @ 98 # concat (replicate 15 chunk_x)
       \<noteq> 97 # 10 # 98 # concat (replicate 15 chunk_x) @ chunk_x"
proof -
  have a: "(case stdout_to_messages big_buf raw_decode () False of
      (blocks, buf', d') \<Rightarrow> concat blocks @ 10 # concat buf')
     = 97 # 10 # chunk_x @ 98 # concat (replicate 15 chunk_x)"
    by (simp add: big_buf_split raw_decode_def)
  have "replicate (Suc 15) chunk_x = replicate 15 chunk_x @ [chunk_x]"
    by (simp only: replicate_Suc replicate_append_same)
  then have b: "concat big_buf = 97 # 10 # 98 # concat (replicate 15 chunk_x) @ chunk_x"
    by (simp add: big_buf_def)
  have c: "97 # 10 # chunk_x @ 98 # concat (replicate 15 chunk_x)
       \<noteq> 97 # 10 # 98 # concat (replicate 15 chunk_x) @ chunk_x"
    by (simp add: chunk_x_hd)
  from a b c show ?thesis by blast
qed

section \<open>Properties of the output relay\<close>

lemmas relay_eval = shell_stdout_handler_def stdout_to_messages_def incremental_decode_def
  send_block_def MAX_STDOUT_PER_MSG_def Let_def is_continuation_byte_def unexpected_end_def
  escape_eval str_def

lemma relay_loop_never_returned: "fst (relay_loop u cs buf dec) \<noteq> Returned"
proof (induction cs arbitrary: buf dec)
  case Nil
  then show ?case by simp
next
  case (Cons c cs)
  then show ?case
    by (cases "poll c") (simp_all add: Let_def case_prod_beta)
qed

text \<open>
  C1. The loop tests \<^verbatim>\<open>shell_stdout == ''\<close>, a \<^verbatim>\<open>bytes\<close> object against a \<^verbatim>\<open>str\<close>, which
  never holds (\<open>relay_loop_never_returned\<close>): an empty read is appended to the buffer and
  the loop goes on. Here the first read is empty; the loop still reads \<^verbatim>\<open>hi\<close> in the next
  pass, relays it in the third and is polling when the observation ends.
\<close>

theorem empty_read_keeps_polling:
  "shell_stdout_handler ascii_ucd
     [\<lparr>is_set = False, poll = Data [], rooms = [str ''!r:hs'']\<rparr>,
      \<lparr>is_set = False, poll = Data [104, 105], rooms = [str ''!r:hs'']\<rparr>,
      \<lparr>is_set = False, poll = Idle, rooms = [str ''!r:hs'']\<rparr>]
   = (Polling,
      [LogStdout (str ''shell stdout: hi''),
       SendHtml (str ''!r:hs'') (str ''<pre><code>hi</code></pre>'') (str ''hi'')],
      [], [])"
  by (simp add: relay_eval)

text \<open>
  C7, as the claim states it. The shell prints \<^verbatim>\<open>h\<close> and the first two bytes of a
  three-byte character; the idle flush relays \<^verbatim>\<open>h\<close>; then the read is empty and the bot
  stops. Nothing else is sent: the two bytes are still in the decoder, where a final
  call would have made them one U+FFFD.
\<close>

theorem partial_sequence_dropped_at_end:
  "shell_stdout_handler ascii_ucd
     [\<lparr>is_set = False, poll = Data [0x68, 0xE2, 0x82], rooms = [str ''!r:hs'']\<rparr>,
      \<lparr>is_set = False, poll = Idle, rooms = [str ''!r:hs'']\<rparr>,
      \<lparr>is_set = False, poll = Data [], rooms = [str ''!r:hs'']\<rparr>,
      \<lparr>is_set = True, poll = Idle, rooms = [str ''!r:hs'']\<rparr>]
   = (StopSet,
      [LogStdout (str ''shell stdout: h''),
       SendHtml (str ''!r:hs'') (str ''<pre><code>h</code></pre>'') (str ''h'')],
      [[]], [0xE2, 0x82])
   \<and> utf_8_decode True [0xE2, 0x82] = ([0xFFFD], [])"
  by (simp add: relay_eval)

lemma stdout_to_messages_not_final:
  "stdout_to_messages buf decode d flush =
     stdout_to_messages buf (\<lambda>d x final. decode d x False) d flush"
  by (simp add: stdout_to_messages_def)

section \<open>What the decoder holds back\<close>

lemma snd_emit: "snd (emit c p) = snd p"
  by (cases p) simp

lemma held1: "0xC2 \<le> ch \<Longrightarrow> ch < 0xF5 \<Longrightarrow> utf_8_decode False [ch] = ([], [ch])"
  by (auto simp: unexpected_end_def is_continuation_byte_def word_less_nat_alt word_le_nat_alt)

lemma held2_3:
  "\<not> ch < 0xE0 \<Longrightarrow> ch < 0xF0 \<Longrightarrow> is_continuation_byte ch2
   \<Longrightarrow> \<not> (if ch2 < 0xA0 then ch = 0xE0 else ch = 0xED)
   \<Longrightarrow> utf_8_decode False [ch, ch2] = ([], [ch, ch2])"
  by (auto simp: unexpected_end_def is_continuation_byte_def word_less_nat_alt word_le_nat_alt)

lemma held2_surrogate:
  "0xA0 \<le> ch2 \<Longrightarrow> ch2 \<le> 0xBF \<Longrightarrow> utf_8_decode False [0xED, ch2] = ([], [0xED, ch2])"
  by (auto simp: unexpected_end_def is_continuation_byte_def word_less_nat_alt word_le_nat_alt)

lemma held2_4:
  "\<not> ch < 0xF0 \<Longrightarrow> ch < 0xF5 \<Longrightarrow> is_continuation_byte ch2
   \<Longrightarrow> \<not> (if ch2 < 0x90 then ch = 0xF0 else ch = 0xF4)
   \<Longrightarrow> utf_8_decode False [ch, ch2] = ([], [ch, ch2])"
  by (auto simp: unexpected_end_def is_continuation_byte_def word_less_nat_alt word_le_nat_alt)

lemma held3_4:
  "\<not> ch < 0xF0 \<Longrightarrow> ch < 0xF5 \<Longrightarrow> is_continuation_byte ch2
   \<Longrightarrow> \<not> (if ch2 < 0x90 then ch = 0xF0 else ch = 0xF4) \<Longrightarrow> is_continuation_byte ch3
   \<Longrightarrow> utf_8_decode False [ch, ch2, ch3] = ([], [ch, ch2, ch3])"
  by (auto simp: unexpected_end_def is_continuation_byte_def word_less_nat_alt word_le_nat_alt)


lemma utf_8_decode_held_back:
  "utf_8_decode False (snd (utf_8_decode False x)) = ([], snd (utf_8_decode False x))"
proof (induction x rule: length_induct)
  case (1 x)
  show ?case
  proof (cases x)
    case Nil
    then show ?thesis by simp
  next
    case (Cons ch s)
    have IH: "utf_8_decode False (snd (utf_8_decode False s')) = ([], snd (utf_8_decode False s'))"
      if "length s' \<le> length s" for s'
      using 1 Cons that by simp
    show ?thesis
      unfolding Cons utf_8_decode.simps(2)[of False ch s]
      by (auto simp del: utf_8_decode.simps
               simp: snd_emit unexpected_end_def IH held1 held2_3 held2_surrogate held2_4 held3_4
               split: list.splits)
         (simp_all add: word_less_nat_alt)
  qed
qed

section \<open>Runs without further data\<close>

lemma relay_loop_stop:
  "is_set c \<Longrightarrow> relay_loop u (c # cs) buf dec = (StopSet, [], buf, dec)"
  by simp

lemma relay_loop_read_error:
  "\<not> is_set c \<Longrightarrow> poll c = ReadError
   \<Longrightarrow> relay_loop u (c # cs) buf dec = (Raised OSError, [], buf, dec)"
  by simp

lemma relay_loop_idle_skip:
  "\<not> is_set c \<Longrightarrow> poll c = Idle \<Longrightarrow> buf = [] \<or> rooms c = []
   \<Longrightarrow> relay_loop u (c # cs) buf dec = relay_loop u cs buf dec"
  by (auto simp: Let_def split: prod.splits)

lemma relay_loop_idle_flush:
  "\<not> is_set c \<Longrightarrow> poll c = Idle \<Longrightarrow> buf \<noteq> [] \<Longrightarrow> rooms c \<noteq> []
   \<Longrightarrow> relay_loop u (c # cs) buf dec =
       (case relay_loop u cs [] (snd (utf_8_decode False (dec @ concat buf))) of
          (ex, effs, b, d) \<Rightarrow>
            (ex, send_block u (rooms c) (fst (utf_8_decode False (dec @ concat buf))) @ effs,
             b, d))"
  by (simp add: Let_def stdout_to_messages_flush incremental_decode_def split: prod.splits)

lemma relay_loop_empty_read:
  "\<not> is_set c \<Longrightarrow> poll c = Data [] \<Longrightarrow> length (concat buf) \<le> MAX_STDOUT_PER_MSG
   \<Longrightarrow> relay_loop u (c # cs) buf dec = relay_loop u cs (buf @ [[]]) dec"
  by (auto simp: Let_def stdout_to_messages_small length_concat split: prod.splits)


lemma relay_loop_drained:
  assumes "\<forall>c\<in>set cs. poll c = Idle \<or> poll c = ReadError \<or> poll c = Data []"
    and "concat buf = []"
    and "utf_8_decode False r = ([], r)"
    and "relay_loop u cs buf r = (ex, effs, buf', dec')"
  shows "dec' = r \<and> concat buf' = [] \<and> (\<forall>e\<in>set effs. \<exists>rs. e \<in> set (send_block u rs []))"
  using assms
proof (induction cs arbitrary: buf ex effs buf' dec')
  case Nil
  then show ?case by simp
next
  case (Cons c cs)
  have rest: "\<forall>c\<in>set cs. poll c = Idle \<or> poll c = ReadError \<or> poll c = Data []"
    using Cons.prems(1) by simp
  have pc: "poll c = Idle \<or> poll c = ReadError \<or> poll c = Data []"
    using Cons.prems(1) by simp
  show ?case
  proof (cases "is_set c")
    case True
    with Cons.prems show ?thesis by (simp add: relay_loop_stop)
  next
    case ns: False
    from pc consider (err) "poll c = ReadError" | (eof) "poll c = Data []"
      | (skip) "poll c = Idle" "buf = [] \<or> rooms c = []"
      | (flush) "poll c = Idle" "buf \<noteq> []" "rooms c \<noteq> []"
      by blast
    then show ?thesis
    proof cases
      case err
      with ns Cons.prems show ?thesis by (simp add: relay_loop_read_error)
    next
      case eof
      have "relay_loop u cs (buf @ [[]]) r = (ex, effs, buf', dec')"
        using relay_loop_empty_read[OF ns eof, of buf u cs r] Cons.prems(2,4) by simp
      moreover have "concat (buf @ [[]]) = []"
        using Cons.prems(2) by simp
      ultimately show ?thesis
        using Cons.IH[OF rest _ Cons.prems(3)] by blast
    next
      case skip
      have "relay_loop u cs buf r = (ex, effs, buf', dec')"
        using relay_loop_idle_skip[OF ns skip, of u cs r] Cons.prems(4) by simp
      then show ?thesis
        using Cons.IH[OF rest Cons.prems(2,3)] by blast
    next
      case flush
      obtain ex0 effs0 b0 d0 where r0: "relay_loop u cs [] r = (ex0, effs0, b0, d0)"
        by (cases "relay_loop u cs [] r") auto
      have d: "utf_8_decode False (r @ concat buf) = ([], r)"
        using Cons.prems(3) unfolding Cons.prems(2) by simp
      have "relay_loop u (c # cs) buf r = (ex0, send_block u (rooms c) [] @ effs0, b0, d0)"
        unfolding relay_loop_idle_flush[OF ns flush] d fst_conv snd_conv r0 by simp
      with Cons.prems(4) have e: "effs = send_block u (rooms c) [] @ effs0" "buf' = b0" "dec' = d0"
        by simp_all
      have "d0 = r \<and> concat b0 = [] \<and> (\<forall>e\<in>set effs0. \<exists>rs. e \<in> set (send_block u rs []))"
        using Cons.IH[OF rest _ Cons.prems(3) r0] by simp
      with e show ?thesis by auto
    qed
  qed
qed

text \<open>
  C7, as the code has it. The decoder is only ever called with \<open>final\<close> false
  (\<open>stdout_to_messages_not_final\<close>), and the loop does not call it on its way out. Take
  any run in which no more data arrives: every pass is idle, fails to read, or reads the
  empty chunk of the end of the stream, until the observation ends or the bot stops. With
  a buffer within the size limit, such a run either sends nothing and leaves decoder and
  buffered bytes as they are, or sends the text the decoder gives for the bytes held,
  decoded as not final, and after it empty blocks only. The bytes the decoder holds back
  stay in the decoder: no pass turns them into replacement text.
\<close>

theorem held_back_bytes_never_emitted:
  assumes "\<forall>c\<in>set cs. poll c = Idle \<or> poll c = ReadError \<or> poll c = Data []"
    and "length (concat buf) \<le> MAX_STDOUT_PER_MSG"
    and "relay_loop u cs buf dec = (ex, effs, buf', dec')"
  shows "(effs = [] \<and> dec' = dec \<and> concat buf' = concat buf)
       \<or> (dec' = snd (utf_8_decode False (dec @ concat buf)) \<and> concat buf' = [] \<and>
           (\<exists>rs rest.
              effs = send_block u rs (fst (utf_8_decode False (dec @ concat buf))) @ rest \<and>
              (\<forall>e\<in>set rest. \<exists>rs'. e \<in> set (send_block u rs' []))))"
  using assms
proof (induction cs arbitrary: buf ex effs buf' dec')
  case Nil
  then show ?case by simp
next
  case (Cons c cs)
  have rest: "\<forall>c\<in>set cs. poll c = Idle \<or> poll c = ReadError \<or> poll c = Data []"
    using Cons.prems(1) by simp
  have pc: "poll c = Idle \<or> poll c = ReadError \<or> poll c = Data []"
    using Cons.prems(1) by simp
  show ?case
  proof (cases "is_set c")
    case True
    with Cons.prems show ?thesis by (simp add: relay_loop_stop)
  next
    case ns: False
    from pc consider (err) "poll c = ReadError" | (eof) "poll c = Data []"
      | (skip) "poll c = Idle" "buf = [] \<or> rooms c = []"
      | (flush) "poll c = Idle" "buf \<noteq> []" "rooms c \<noteq> []"
      by blast
    then show ?thesis
    proof cases
      case err
      with ns Cons.prems show ?thesis by (simp add: relay_loop_read_error)
    next
      case eof
      have "relay_loop u cs (buf @ [[]]) dec = (ex, effs, buf', dec')"
        using relay_loop_empty_read[OF ns eof Cons.prems(2), of u cs dec] Cons.prems(3) by simp
      moreover have "length (concat (buf @ [[]])) \<le> MAX_STDOUT_PER_MSG"
        using Cons.prems(2) by simp
      ultimately show ?thesis
        using Cons.IH[OF rest, of "buf @ [[]]" ex effs buf' dec'] by simp
    next
      case skip
      have "relay_loop u cs buf dec = (ex, effs, buf', dec')"
        using relay_loop_idle_skip[OF ns skip, of u cs dec] Cons.prems(3) by simp
      then show ?thesis
        using Cons.IH[OF rest Cons.prems(2)] by blast
    next
      case flush
      define t0 where "t0 = fst (utf_8_decode False (dec @ concat buf))"
      define r0 where "r0 = snd (utf_8_decode False (dec @ concat buf))"
      obtain ex0 effs0 b0 d0 where l0: "relay_loop u cs [] r0 = (ex0, effs0, b0, d0)"
        by (cases "relay_loop u cs [] r0") auto
      have "relay_loop u (c # cs) buf dec = (ex0, send_block u (rooms c) t0 @ effs0, b0, d0)"
        unfolding relay_loop_idle_flush[OF ns flush] t0_def[symmetric] r0_def[symmetric] l0
        by simp
      with Cons.prems(3) have e: "effs = send_block u (rooms c) t0 @ effs0" "buf' = b0" "dec' = d0"
        by simp_all
      have h: "utf_8_decode False r0 = ([], r0)"
        unfolding r0_def by (rule utf_8_decode_held_back)
      have "d0 = r0 \<and> concat b0 = [] \<and> (\<forall>e\<in>set effs0. \<exists>rs. e \<in> set (send_block u rs []))"
        using relay_loop_drained[OF rest _ h l0] by simp
      with e have "dec' = r0 \<and> concat buf' = [] \<and>
           (\<exists>rs rest. effs = send_block u rs t0 @ rest \<and>
              (\<forall>e\<in>set rest. \<exists>rs'. e \<in> set (send_block u rs' [])))"
        by blast
      then show ?thesis
        unfolding t0_def r0_def by blast
    qed
  qed
qed

theorem held_back_bytes_never_emitted_witness:
  "relay_loop ascii_ucd
     [\<lparr>is_set = False, poll = Data [], rooms = [str ''!r:hs'']\<rparr>,
      \<lparr>is_set = False, poll = Idle, rooms = [str ''!r:hs'']\<rparr>,
      \<lparr>is_set = False, poll = Data [], rooms = [str ''!r:hs'']\<rparr>,
      \<lparr>is_set = False, poll = Idle, rooms = [str ''!r:hs'']\<rparr>,
      \<lparr>is_set = True, poll = Idle, rooms = [str ''!r:hs'']\<rparr>]
     [[0x68, 0xE2, 0x82]] []
   = (StopSet,
      [LogStdout (str ''shell stdout: h''),
       SendHtml (str ''!r:hs'') (str ''<pre><code>h</code></pre>'') (str ''h''),
       LogStdout (str ''shell stdout: ''),
       SendHtml (str ''!r:hs'') (str ''<pre><code></code></pre>'') []],
      [], [0xE2, 0x82])
   \<and> utf_8_decode False ([] @ concat [[0x68, 0xE2, 0x82]]) = (str ''h'', [0xE2, 0x82])
   \<and> send_block ascii_ucd [str ''!r:hs''] []
       = [LogStdout (str ''shell stdout: ''),
          SendHtml (str ''!r:hs'') (str ''<pre><code></code></pre>'') []]"
proof -
  have run: "relay_loop ascii_ucd
     [\<lparr>is_set = False, poll = Data [], rooms = [str ''!r:hs'']\<rparr>,
      \<lparr>is_set = False, poll = Idle, rooms = [str ''!r:hs'']\<rparr>,
      \<lparr>is_set = False, poll = Data [], rooms = [str ''!r:hs'']\<rparr>,
      \<lparr>is_set = False, poll = Idle, rooms = [str ''!r:hs'']\<rparr>,
      \<lparr>is_set = True, poll = Idle, rooms = [str ''!r:hs'']\<rparr>]
     [[0x68, 0xE2, 0x82]] []
   = (StopSet,
      [LogStdout (str ''shell stdout: h''),
       SendHtml (str ''!r:hs'') (str ''<pre><code>h</code></pre>'') (str ''h''),
       LogStdout (str ''shell stdout: ''),
       SendHtml (str ''!r:hs'') (str ''<pre><code></code></pre>'') []],
      [], [0xE2, 0x82])"
    by (simp add: relay_eval)
  have nodata: "\<forall>c\<in>set
     [\<lparr>is_set = False, poll = Data [], rooms = [str ''!r:hs'']\<rparr>,
      \<lparr>is_set = False, poll = Idle, rooms = [str ''!r:hs'']\<rparr>,
      \<lparr>is_set = False, poll = Data [], rooms = [str ''!r:hs'']\<rparr>,
      \<lparr>is_set = False, poll = Idle, rooms = [str ''!r:hs'']\<rparr>,
      \<lparr>is_set = True, poll = Idle, rooms = [str ''!r:hs'']\<rparr>].
     poll c = Idle \<or> poll c = ReadError \<or> poll c = Data []"
    by simp
  have small: "length (concat [[0x68, 0xE2, 0x82 :: byte]]) \<le> MAX_STDOUT_PER_MSG"
    by (simp add: MAX_STDOUT_PER_MSG_def)
  have dec: "utf_8_decode False ([] @ concat [[0x68, 0xE2, 0x82]]) = (str ''h'', [0xE2, 0x82])"
    by (simp add: is_continuation_byte_def unexpected_end_def str_def)
  have blk: "send_block ascii_ucd [str ''!r:hs''] []
       = [LogStdout (str ''shell stdout: ''),
          SendHtml (str ''!r:hs'') (str ''<pre><code></code></pre>'') []]"
    by (simp add: send_block_def escape_eval str_def)
  show ?thesis
    using held_back_bytes_never_emitted[OF nodata small run] run dec blk by simp
qed

end
